theory Spec2Isabelle
  imports Complex_Main "HOL-Library.Multiset"
begin

section \<open>Values of the decoded export\<close>

text \<open>
  The archive extractor hands the pipeline whatever \<^verbatim>\<open>json.loads\<close> produced: \<^verbatim>\<open>None\<close>,
  \<^verbatim>\<open>bool\<close>, \<^verbatim>\<open>int\<close>, \<^verbatim>\<open>float\<close>, \<^verbatim>\<open>str\<close>, \<^verbatim>\<open>list\<close> and \<^verbatim>\<open>dict\<close> with string keys. A finite
  float is represented by its exact rational value; the non-standard literals \<^verbatim>\<open>NaN\<close> and
  \<^verbatim>\<open>Infinity\<close> are not represented. A \<^verbatim>\<open>dict\<close> is an association list in insertion order,
  read with \<open>map_of\<close>. Strings are byte strings; the segments of a path are taken to be ASCII.
\<close>

datatype json =
    JNull
  | JBool bool
  | JInt int
  | JFloat rat
  | JStr string
  | JList "json list"
  | JDict "(string \<times> json) list"

datatype py_error =
    ValueError
  | TypeError
  | IndexError
  | AttributeError

section \<open>Library operations used by the path accessor\<close>

text \<open>\<^verbatim>\<open>str.split(".")\<close>: always at least one segment, empty segments kept.\<close>

fun split_on :: "char \<Rightarrow> string \<Rightarrow> string list" where
  "split_on d [] = [[]]"
| "split_on d (c # cs) =
     (if c = d then [] # split_on d cs
      else (case split_on d cs of
              [] \<Rightarrow> [[c]]
            | p # ps \<Rightarrow> (c # p) # ps))"

text \<open>
  \<^verbatim>\<open>int(part)\<close> on a string: surrounding whitespace is stripped, one sign is allowed, then
  decimal digits with single underscores between digits; anything else raises
  \<^verbatim>\<open>ValueError\<close>. No limit on the number of digits is modelled.
\<close>

definition is_space :: "char \<Rightarrow> bool" where
  "is_space c = (let n = (of_char c :: nat) in (9 \<le> n \<and> n \<le> 13) \<or> (28 \<le> n \<and> n \<le> 32))"

definition is_digit :: "char \<Rightarrow> bool" where
  "is_digit c = (let n = (of_char c :: nat) in 48 \<le> n \<and> n \<le> 57)"

definition digit_val :: "char \<Rightarrow> nat" where
  "digit_val c = of_char c - 48"

definition strip :: "string \<Rightarrow> string" where
  "strip s = rev (dropWhile is_space (rev (dropWhile is_space s)))"

fun parse_digits :: "nat \<Rightarrow> string \<Rightarrow> nat option" where
  "parse_digits acc [] = Some acc"
| "parse_digits acc (c # cs) =
     (if is_digit c then parse_digits (10 * acc + digit_val c) cs
      else if c = CHR ''_'' then
        (case cs of
           [] \<Rightarrow> None
         | d # ds \<Rightarrow> if is_digit d then parse_digits (10 * acc + digit_val d) ds else None)
      else None)"

definition parse_unsigned :: "string \<Rightarrow> nat option" where
  "parse_unsigned s =
     (case s of
        [] \<Rightarrow> None
      | c # cs \<Rightarrow> if is_digit c then parse_digits (digit_val c) cs else None)"

definition py_int_str :: "string \<Rightarrow> py_error + int" where
  "py_int_str s =
     (case strip s of
        [] \<Rightarrow> Inl ValueError
      | c # cs \<Rightarrow>
          if c = CHR ''-'' then
            (case parse_unsigned cs of None \<Rightarrow> Inl ValueError | Some n \<Rightarrow> Inr (- int n))
          else if c = CHR ''+'' then
            (case parse_unsigned cs of None \<Rightarrow> Inl ValueError | Some n \<Rightarrow> Inr (int n))
          else
            (case parse_unsigned (c # cs) of None \<Rightarrow> Inl ValueError | Some n \<Rightarrow> Inr (int n)))"

text \<open>\<^verbatim>\<open>xs[i]\<close>: a negative index counts from the end, out of range raises.\<close>

definition py_getitem :: "'a list \<Rightarrow> int \<Rightarrow> py_error + 'a" where
  "py_getitem xs i =
     (if i < - int (length xs) \<or> int (length xs) \<le> i then Inl IndexError
      else if i < 0 then Inr (xs ! nat (int (length xs) + i))
      else Inr (xs ! nat i))"

text \<open>\<^verbatim>\<open>d.get(k)\<close>: the value, or \<^verbatim>\<open>None\<close> when the key is missing.\<close>

definition dict_get :: "(string \<times> json) list \<Rightarrow> string \<Rightarrow> json" where
  "dict_get kvs k = (case map_of kvs k of None \<Rightarrow> JNull | Some v \<Rightarrow> v)"

section \<open>The path accessor\<close>

text \<open>
  \<^verbatim>\<open>get_nested_value\<close> is written twice in the source, once inside \<^verbatim>\<open>filter_cases\<close> and
  once inside \<^verbatim>\<open>sort_cases\<close>. Each copy is a loop over the segments of the path; the loop
  is the recursion on the list of segments, with \<open>current\<close> as its state. An early
  \<^verbatim>\<open>return None\<close> is the result \<open>Inr JNull\<close>; only \<^verbatim>\<open>ValueError\<close> is caught.
\<close>

fun walk_filter :: "json \<Rightarrow> string list \<Rightarrow> py_error + json" where
  "walk_filter current [] = Inr current"
| "walk_filter (JList xs) (part # parts) =
     (case py_int_str part of
        Inl e \<Rightarrow> if e = ValueError then Inr JNull else Inl e
      | Inr idx \<Rightarrow>
          if idx < 0 \<or> idx \<ge> int (length xs) then Inr JNull
          else (case py_getitem xs idx of
                  Inl e \<Rightarrow> Inl e
                | Inr v \<Rightarrow> walk_filter v parts))"
| "walk_filter (JDict kvs) (part # parts) =
     (if map_of kvs part = None then Inr JNull
      else walk_filter (dict_get kvs part) parts)"
| "walk_filter _ (part # parts) = Inr JNull"

definition get_nested_value_filter :: "json \<Rightarrow> string \<Rightarrow> py_error + json" where
  "get_nested_value_filter obj path = walk_filter obj (split_on CHR ''.'' path)"

fun walk_sort :: "json \<Rightarrow> string list \<Rightarrow> py_error + json" where
  "walk_sort current [] = Inr current"
| "walk_sort (JList xs) (part # parts) =
     (case py_int_str part of
        Inl e \<Rightarrow> if e = ValueError then Inr JNull else Inl e
      | Inr idx \<Rightarrow>
          if idx < 0 \<or> idx \<ge> int (length xs) then Inr JNull
          else (case py_getitem xs idx of
                  Inl e \<Rightarrow> Inl e
                | Inr v \<Rightarrow> walk_sort v parts))"
| "walk_sort (JDict kvs) (part # parts) = walk_sort (dict_get kvs part) parts"
| "walk_sort _ (part # parts) = Inr JNull"

definition get_nested_value_sort :: "json \<Rightarrow> string \<Rightarrow> py_error + json" where
  "get_nested_value_sort obj path = walk_sort obj (split_on CHR ''.'' path)"

section \<open>Equality and order of values\<close>

text \<open>
  \<^verbatim>\<open>==\<close> on decoded values: \<^verbatim>\<open>bool\<close>, \<^verbatim>\<open>int\<close> and \<^verbatim>\<open>float\<close> compare by numeric value
  (\<^verbatim>\<open>True == 1 == 1.0\<close>), strings by content, lists element by element, dicts key by
  key; values of different kinds are unequal. \<^verbatim>\<open>!=\<close> is its negation on these values.
\<close>

fun num_val :: "json \<Rightarrow> rat option" where
  "num_val (JBool b) = Some (if b then 1 else 0)"
| "num_val (JInt i) = Some (of_int i)"
| "num_val (JFloat r) = Some r"
| "num_val _ = None"

fun py_eq :: "json \<Rightarrow> json \<Rightarrow> bool"
  and py_eq_list :: "json list \<Rightarrow> json list \<Rightarrow> bool"
  and py_eq_items :: "(string \<times> json) list \<Rightarrow> (string \<times> json) list \<Rightarrow> bool" where
  "py_eq JNull w = (w = JNull)"
| "py_eq (JBool b) w = (case num_val w of None \<Rightarrow> False | Some r \<Rightarrow> (if b then 1 else 0) = r)"
| "py_eq (JInt i) w = (case num_val w of None \<Rightarrow> False | Some r \<Rightarrow> of_int i = r)"
| "py_eq (JFloat q) w = (case num_val w of None \<Rightarrow> False | Some r \<Rightarrow> q = r)"
| "py_eq (JStr s) w = (case w of JStr t \<Rightarrow> s = t | _ \<Rightarrow> False)"
| "py_eq (JList xs) w = (case w of JList ys \<Rightarrow> py_eq_list xs ys | _ \<Rightarrow> False)"
| "py_eq (JDict a) w =
     (case w of JDict b \<Rightarrow> length a = length b \<and> py_eq_items a b | _ \<Rightarrow> False)"
| "py_eq_list [] ys = (ys = [])"
| "py_eq_list (x # xs) ys = (case ys of [] \<Rightarrow> False | y # ys' \<Rightarrow> py_eq x y \<and> py_eq_list xs ys')"
| "py_eq_items [] b = True"
| "py_eq_items ((k, v) # a) b =
     (case map_of b k of None \<Rightarrow> False | Some w \<Rightarrow> py_eq v w \<and> py_eq_items a b)"



text \<open>
  \<^verbatim>\<open><\<close>: numbers by value, strings and lists lexicographically (a list finds the first
  position where the elements are unequal and compares there); every other pairing
  raises \<^verbatim>\<open>TypeError\<close>.
\<close>

fun str_lt :: "string \<Rightarrow> string \<Rightarrow> bool" where
  "str_lt [] [] = False"
| "str_lt [] (d # ds) = True"
| "str_lt (c # cs) [] = False"
| "str_lt (c # cs) (d # ds) = (if c = d then str_lt cs ds else (of_char c :: nat) < of_char d)"

fun py_lt :: "json \<Rightarrow> json \<Rightarrow> py_error + bool"
  and py_lt_list :: "json list \<Rightarrow> json list \<Rightarrow> py_error + bool" where
  "py_lt (JStr s) w = (case w of JStr t \<Rightarrow> Inr (str_lt s t) | _ \<Rightarrow> Inl TypeError)"
| "py_lt (JList xs) w = (case w of JList ys \<Rightarrow> py_lt_list xs ys | _ \<Rightarrow> Inl TypeError)"
| "py_lt JNull w = Inl TypeError"
| "py_lt (JDict a) w = Inl TypeError"
| "py_lt (JBool b) w =
     (case num_val w of None \<Rightarrow> Inl TypeError | Some r \<Rightarrow> Inr ((if b then 1 else 0) < r))"
| "py_lt (JInt i) w =
     (case num_val w of None \<Rightarrow> Inl TypeError | Some r \<Rightarrow> Inr (of_int i < r))"
| "py_lt (JFloat q) w =
     (case num_val w of None \<Rightarrow> Inl TypeError | Some r \<Rightarrow> Inr (q < r))"
| "py_lt_list [] ys = Inr (ys \<noteq> [])"
| "py_lt_list (x # xs) ys =
     (case ys of
        [] \<Rightarrow> Inr False
      | y # ys' \<Rightarrow> if py_eq x y then py_lt_list xs ys' else py_lt x y)"

section \<open>Filtering\<close>




section \<open>Sorting\<close>

text \<open>
  The sort key is the pair \<^verbatim>\<open>(value is None, value)\<close>. Two pairs are compared as tuples:
  the first position where the components are unequal decides, by \<^verbatim>\<open><\<close> there
  (\<^verbatim>\<open>False < True\<close>); pairs equal in both components are not less.
\<close>

definition sort_key :: "string \<Rightarrow> json \<Rightarrow> py_error + (bool \<times> json)" where
  "sort_key field c =
     (case get_nested_value_sort c field of
        Inl e \<Rightarrow> Inl e
      | Inr v \<Rightarrow> Inr (v = JNull, v))"

definition key_lt :: "bool \<times> json \<Rightarrow> bool \<times> json \<Rightarrow> py_error + bool" where
  "key_lt a b =
     (if fst a \<noteq> fst b then Inr (\<not> fst a \<and> fst b)
      else if py_eq (snd a) (snd b) then Inr False
      else py_lt (snd a) (snd b))"

text \<open>
  \<^verbatim>\<open>sorted(xs, key=f, reverse=r)\<close>: the keys are computed once, in order; the decorated
  list is sorted stably by \<^verbatim>\<open><\<close> on the keys; with \<^verbatim>\<open>reverse\<close> the list is reversed before
  and after the sort, which keeps equal keys in their original order. The stable sort is
  modelled as insertion from the left. On keys that are pairwise comparable the
  interpreter's merge sort returns the same list; where some pair is not comparable it
  may compare other pairs than the model does.
\<close>

fun eval_keys :: "('a \<Rightarrow> py_error + 'k) \<Rightarrow> 'a list \<Rightarrow> py_error + ('k \<times> 'a) list" where
  "eval_keys f [] = Inr []"
| "eval_keys f (x # xs) =
     (case f x of
        Inl e \<Rightarrow> Inl e
      | Inr k \<Rightarrow> (case eval_keys f xs of Inl e \<Rightarrow> Inl e | Inr ks \<Rightarrow> Inr ((k, x) # ks)))"

fun insert_key ::
  "('k \<Rightarrow> 'k \<Rightarrow> py_error + bool) \<Rightarrow> 'k \<times> 'a \<Rightarrow> ('k \<times> 'a) list \<Rightarrow> py_error + ('k \<times> 'a) list" where
  "insert_key lt x [] = Inr [x]"
| "insert_key lt x (y # ys) =
     (case lt (fst x) (fst y) of
        Inl e \<Rightarrow> Inl e
      | Inr b \<Rightarrow>
          if b then Inr (x # y # ys)
          else (case insert_key lt x ys of Inl e \<Rightarrow> Inl e | Inr zs \<Rightarrow> Inr (y # zs)))"

fun sort_loop ::
  "('k \<Rightarrow> 'k \<Rightarrow> py_error + bool) \<Rightarrow> ('k \<times> 'a) list \<Rightarrow> ('k \<times> 'a) list \<Rightarrow> py_error + ('k \<times> 'a) list" where
  "sort_loop lt acc [] = Inr acc"
| "sort_loop lt acc (x # xs) =
     (case insert_key lt x acc of Inl e \<Rightarrow> Inl e | Inr acc' \<Rightarrow> sort_loop lt acc' xs)"

definition py_sorted ::
  "('k \<Rightarrow> 'k \<Rightarrow> py_error + bool) \<Rightarrow> ('a \<Rightarrow> py_error + 'k) \<Rightarrow> bool \<Rightarrow> 'a list \<Rightarrow> py_error + 'a list" where
  "py_sorted lt f reverse xs =
     (case eval_keys f xs of
        Inl e \<Rightarrow> Inl e
      | Inr ks \<Rightarrow>
          (case sort_loop lt [] (if reverse then rev ks else ks) of
             Inl e \<Rightarrow> Inl e
           | Inr s \<Rightarrow> Inr (map snd (if reverse then rev s else s))))"

text \<open>\<^verbatim>\<open>str.lower()\<close> on ASCII letters.\<close>

definition lower_char :: "char \<Rightarrow> char" where
  "lower_char c =
     (let n = (of_char c :: nat) in if 65 \<le> n \<and> n \<le> 90 then char_of (n + 32) else c)"

definition sort_cases :: "json list \<Rightarrow> string \<Rightarrow> string \<Rightarrow> py_error + json list" where
  "sort_cases cases field order =
     (if field = [] then Inr cases
      else
        (let descending = (map lower_char order = ''desc'')
         in py_sorted key_lt (sort_key field) descending cases))"

section \<open>Pagination\<close>

text \<open>
  \<^verbatim>\<open>xs[start:end]\<close>: a negative bound counts from the end, and both bounds are clamped
  to the list; slicing never raises.
\<close>

definition clamp_index :: "nat \<Rightarrow> int \<Rightarrow> nat" where
  "clamp_index n i =
     (let j = (if i < 0 then int n + i else i)
      in if j < 0 then 0 else if int n < j then n else nat j)"

definition py_slice :: "'a list \<Rightarrow> int \<Rightarrow> int \<Rightarrow> 'a list" where
  "py_slice xs start stop =
     (let lo = clamp_index (length xs) start; hi = clamp_index (length xs) stop
      in take (hi - lo) (drop lo xs))"

record pagination_result =
  items :: "json list"
  total :: int
  limit :: int
  offset :: int

definition paginate :: "json list \<Rightarrow> int \<Rightarrow> int \<Rightarrow> pagination_result" where
  "paginate cases lmt ofs =
     (let n = int (length cases);
          start = ofs;
          stop = ofs + lmt;
          sliced = py_slice cases start stop
      in \<lparr>items = sliced, total = n, limit = lmt, offset = ofs\<rparr>)"

section \<open>Aggregate statistics\<close>
















section \<open>The upstream streaming client\<close>

text \<open>
  Each request to the export endpoint ends in one of a few ways, decided by the upstream
  and the network: the connection fails (\<^verbatim>\<open>ConnectError\<close>, before any response);
  \<^verbatim>\<open>raise_for_status\<close> raises \<^verbatim>\<open>HTTPStatusError\<close> (before the body is read); the body
  breaks with \<^verbatim>\<open>ReadTimeout\<close> or \<^verbatim>\<open>RemoteProtocolError\<close> after some chunks were read;
  some exception that the generator does not catch is raised after some chunks; or the
  body ends normally. The upstream is a function from the payload and the number of the
  request (from 1) to such an ending. What the consumer of the generator observes is the
  list of chunks yielded and how the generator ended; the requests issued and the
  back-off sleeps are recorded beside them.
\<close>

type_synonym chunk = string

datatype stream_exc =
    ConnectError
  | ReadTimeout
  | RemoteProtocolError
  | HTTPStatusError nat
  | OtherException
  | NotImplementedError

datatype read_exc = ReadTimedOut | ProtocolBroken

datatype attempt =
    ConnectFails
  | StatusFails nat
  | ReadFails read_exc "chunk list"
  | OtherFails "chunk list"
  | Completes "chunk list"

record stream_result =
  yielded :: "chunk list"
  requests :: nat
  sleeps :: "rat list"
  raised :: "stream_exc option"

definition MAX_RETRIES :: nat where
  "MAX_RETRIES = 3"

definition RETRY_BACKOFF_SECONDS :: rat where
  "RETRY_BACKOFF_SECONDS = 1"

fun read_exc_of :: "read_exc \<Rightarrow> stream_exc" where
  "read_exc_of ReadTimedOut = ReadTimeout"
| "read_exc_of ProtocolBroken = RemoteProtocolError"

definition sleep :: "rat \<Rightarrow> stream_result \<Rightarrow> stream_result" where
  "sleep d st = st\<lparr>sleeps := sleeps st @ [d]\<rparr>"

definition yield_all :: "chunk list \<Rightarrow> stream_result \<Rightarrow> stream_result" where
  "yield_all cs st = st\<lparr>yielded := yielded st @ cs\<rparr>"

definition raise :: "stream_exc \<Rightarrow> stream_result \<Rightarrow> stream_result" where
  "raise e st = st\<lparr>raised := Some e\<rparr>"

text \<open>
  The \<^verbatim>\<open>while True\<close> loop; \<open>attempt\<close> is the counter before its increment. The loop goes
  round again only while the incremented counter is below \<open>MAX_RETRIES\<close>.
\<close>

function stream_loop :: "(nat \<Rightarrow> attempt) \<Rightarrow> nat \<Rightarrow> stream_result \<Rightarrow> stream_result" where
  "stream_loop up attempt st =
     (let attempt' = attempt + 1;
          st1 = st\<lparr>requests := requests st + 1\<rparr>
      in case up attempt' of
           Completes cs \<Rightarrow> yield_all cs st1
         | OtherFails cs \<Rightarrow> raise OtherException (yield_all cs st1)
         | ConnectFails \<Rightarrow>
             if attempt' \<ge> MAX_RETRIES then raise ConnectError st1
             else stream_loop up attempt' (sleep (RETRY_BACKOFF_SECONDS * of_nat attempt') st1)
         | ReadFails x cs \<Rightarrow>
             if attempt' \<ge> MAX_RETRIES then raise (read_exc_of x) (yield_all cs st1)
             else stream_loop up attempt'
                    (sleep (RETRY_BACKOFF_SECONDS * of_nat attempt') (yield_all cs st1))
         | StatusFails status \<Rightarrow>
             if 500 \<le> status \<and> status < 600 \<and> attempt' < MAX_RETRIES
             then stream_loop up attempt' (sleep (RETRY_BACKOFF_SECONDS * of_nat attempt') st1)
             else raise (HTTPStatusError status) st1)"
  by pat_completeness auto
termination
  by (relation "measure (\<lambda>(up, attempt, st). MAX_RETRIES - attempt)") auto

declare stream_loop.simps [simp del]

definition stream_file_export :: "('p \<Rightarrow> nat \<Rightarrow> attempt) \<Rightarrow> 'p \<Rightarrow> stream_result" where
  "stream_file_export upstream payload =
     stream_loop (upstream payload) 0 \<lparr>yielded = [], requests = 0, sleeps = [], raised = None\<rparr>"

text \<open>The two placeholders raise as soon as they are consumed, before their \<^verbatim>\<open>yield\<close>.\<close>

definition stream_ntsb_zip_by_ntsb_number :: "string \<Rightarrow> string \<Rightarrow> stream_result" where
  "stream_ntsb_zip_by_ntsb_number ntsb_num mode =
     raise NotImplementedError \<lparr>yielded = [], requests = 0, sleeps = [], raised = None\<rparr>"

definition stream_ntsb_zip_by_mkey :: "int \<Rightarrow> string \<Rightarrow> stream_result" where
  "stream_ntsb_zip_by_mkey mkey mode =
     raise NotImplementedError \<lparr>yielded = [], requests = 0, sleeps = [], raised = None\<rparr>"

text \<open>
  Reading an attempt: whether it is a transient transport failure, whether the loop goes
  round again after it (given attempts are left), the exception it raises, and the
  chunks the generator yields during it.
\<close>

fun transient :: "attempt \<Rightarrow> bool" where
  "transient ConnectFails = True"
| "transient (ReadFails x cs) = True"
| "transient _ = False"

fun retried :: "attempt \<Rightarrow> bool" where
  "retried (StatusFails status) = (500 \<le> status \<and> status < 600)"
| "retried a = transient a"

fun failure_of :: "attempt \<Rightarrow> stream_exc option" where
  "failure_of ConnectFails = Some ConnectError"
| "failure_of (StatusFails status) = Some (HTTPStatusError status)"
| "failure_of (ReadFails x cs) = Some (read_exc_of x)"
| "failure_of (OtherFails cs) = Some OtherException"
| "failure_of (Completes cs) = None"

fun chunks_of :: "attempt \<Rightarrow> chunk list" where
  "chunks_of ConnectFails = []"
| "chunks_of (StatusFails status) = []"
| "chunks_of (ReadFails x cs) = cs"
| "chunks_of (OtherFails cs) = cs"
| "chunks_of (Completes cs) = cs"



definition fails_twice :: "'p \<Rightarrow> nat \<Rightarrow> attempt" where
  "fails_twice payload k =
     (if k = 1 then ConnectFails
      else if k = 2 then ReadFails ReadTimedOut []
      else Completes [''PK''])"

definition always_unavailable :: "'p \<Rightarrow> nat \<Rightarrow> attempt" where
  "always_unavailable payload k = StatusFails 503"

definition not_found :: "'p \<Rightarrow> nat \<Rightarrow> attempt" where
  "not_found payload k = StatusFails 404"

section \<open>Statements of the specification\<close>







text \<open>
  The value a record resolves to under the accessor of \<^verbatim>\<open>sort_cases\<close>, the record
  decorated with its sort key, the present (non-null) resolved values of a list of
  records, and what it means for two values to be order-comparable: \<^verbatim>\<open><\<close> between them
  does not raise.
\<close>

definition resolved :: "string \<Rightarrow> json \<Rightarrow> json" where
  "resolved field c = (case get_nested_value_sort c field of Inl e \<Rightarrow> JNull | Inr v \<Rightarrow> v)"

definition decorate :: "string \<Rightarrow> json \<Rightarrow> (bool \<times> json) \<times> json" where
  "decorate field c = ((resolved field c = JNull, resolved field c), c)"



text \<open>
  The order the specification asks of a sorted list: no record whose value is absent
  stands before a record whose value is present. The same on a decorated list, read off
  the first component of the key; a key is formed as \<^verbatim>\<open>sort_key\<close> forms it when that
  component says whether the value is \<^verbatim>\<open>None\<close>.
\<close>

fun absent_last :: "string \<Rightarrow> json list \<Rightarrow> bool" where
  "absent_last field [] = True"
| "absent_last field (c # cs) =
     ((resolved field c = JNull \<longrightarrow> (\<forall>d \<in> set cs. resolved field d = JNull)) \<and>
      absent_last field cs)"

fun keys_absent_last :: "((bool \<times> json) \<times> 'a) list \<Rightarrow> bool" where
  "keys_absent_last [] = True"
| "keys_absent_last (k # ks) =
     ((fst (fst k) \<longrightarrow> (\<forall>j \<in> set ks. fst (fst j))) \<and> keys_absent_last ks)"

definition key_formed :: "(bool \<times> json) \<times> 'a \<Rightarrow> bool" where
  "key_formed k = (fst (fst k) = (snd (fst k) = JNull))"





definition present_then_absent :: "json list" where
  "present_then_absent = [JDict [(''n'', JInt 1)], JDict []]"

section \<open>Properties of the path accessor\<close>

lemma py_int_str_error: "py_int_str s = Inl e \<Longrightarrow> e = ValueError"
  by (auto simp: py_int_str_def split: list.splits if_splits option.splits)

lemma py_getitem_in_range:
  "0 \<le> i \<Longrightarrow> i < int (length xs) \<Longrightarrow> py_getitem xs i = Inr (xs ! nat i)"
  by (simp add: py_getitem_def)

lemma walk_sort_null: "walk_sort JNull parts = Inr JNull"
  by (cases parts) simp_all


lemma dict_get_missing: "map_of kvs k = None \<Longrightarrow> dict_get kvs k = JNull"
  by (simp add: dict_get_def)

text \<open>
  The two loops differ only at a missing key: the copy in \<^verbatim>\<open>filter_cases\<close> returns at once,
  the copy in \<^verbatim>\<open>sort_cases\<close> goes on with \<^verbatim>\<open>None\<close>, which the next round (or the end of the
  loop) turns into the same \<^verbatim>\<open>None\<close>.
\<close>

lemma walk_filter_sort: "walk_filter current parts = walk_sort current parts"
proof (induction parts arbitrary: current)
  case Nil
  show ?case by simp
next
  case (Cons part parts)
  show ?case
  proof (cases current)
    case (JList xs)
    then show ?thesis
      using Cons.IH by (simp split: sum.splits)
  next
    case (JDict kvs)
    then show ?thesis
      using Cons.IH by (simp add: dict_get_missing walk_sort_null)
  qed simp_all
qed

text \<open>
  Claim C8. The accessor inside \<^verbatim>\<open>filter_cases\<close> and the accessor inside \<^verbatim>\<open>sort_cases\<close>
  return the same result for every record and every path.
\<close>

theorem accessors_agree:
  "get_nested_value_filter obj path = get_nested_value_sort obj path"
  by (simp add: get_nested_value_filter_def get_nested_value_sort_def walk_filter_sort)

lemma walk_filter_total: "\<exists>v. walk_filter current parts = Inr v"
proof (induction parts arbitrary: current)
  case Nil
  show ?case by simp
next
  case (Cons part parts)
  show ?case
  proof (cases current)
    case (JList xs)
    show ?thesis
    proof (cases "py_int_str part")
      case (Inl e)
      with JList show ?thesis by (simp add: py_int_str_error)
    next
      case (Inr idx)
      with JList Cons.IH show ?thesis
        by (cases "idx < 0 \<or> int (length xs) \<le> idx") (auto simp: py_getitem_in_range)
    qed
  next
    case (JDict kvs)
    then show ?thesis using Cons.IH by simp
  qed simp_all
qed





section \<open>Properties of pagination\<close>

lemma clamp_index_nonneg: "0 \<le> i \<Longrightarrow> clamp_index n i = min n (nat i)"
  by (auto simp: clamp_index_def Let_def)

lemma take_min_length: "take (min k (length ys)) ys = take k ys"
  by (cases "k \<le> length ys") (simp_all add: min_def)

lemma take_drop_clamped:
  "take (min n (length xs) - min m (length xs)) (drop (min m (length xs)) xs)
     = take (n - m) (drop m xs)"
proof (cases "m \<le> length xs")
  case True
  then have "min n (length xs) - m = min (n - m) (length (drop m xs))"
    by (auto simp: min_def)
  with True show ?thesis
    by (simp only: min_absorb1 take_min_length)
next
  case False
  then show ?thesis by simp
qed

lemma py_slice_nonneg:
  "0 \<le> start \<Longrightarrow> 0 \<le> len \<Longrightarrow>
   py_slice xs start (start + len) = take (nat len) (drop (nat start) xs)"
  using take_drop_clamped [of "nat (start + len)" xs "nat start"]
  by (simp add: py_slice_def clamp_index_nonneg Let_def min.commute nat_add_distrib)

text \<open>
  Claim C5. For \<open>limit \<ge> 1\<close> and \<open>offset \<ge> 0\<close>, the items are the slice
  \<^verbatim>\<open>records[offset : offset+limit]\<close>, which is the run of at most \<open>limit\<close> records starting
  at \<open>offset\<close>: it is empty when \<open>offset\<close> is beyond the end, it has
  \<open>min limit (total - offset)\<close> records otherwise, and nothing raises. The total is the
  length of the input whatever \<open>limit\<close> and \<open>offset\<close> are.
\<close>

theorem paginate_slice:
  "1 \<le> lmt \<and> 0 \<le> ofs \<longrightarrow>
     items (paginate cases lmt ofs) = py_slice cases ofs (ofs + lmt) \<and>
     items (paginate cases lmt ofs) = take (nat lmt) (drop (nat ofs) cases) \<and>
     (int (length cases) \<le> ofs \<longrightarrow> items (paginate cases lmt ofs) = []) \<and>
     (ofs < int (length cases) \<longrightarrow>
        int (length (items (paginate cases lmt ofs))) = min lmt (int (length cases) - ofs)) \<and>
     total (paginate cases lmt ofs) = int (length cases) \<and>
     total (paginate cases lmt' ofs') = int (length cases)"
proof (intro impI)
  assume a: "1 \<le> lmt \<and> 0 \<le> ofs"
  then have s: "py_slice cases ofs (ofs + lmt) = take (nat lmt) (drop (nat ofs) cases)"
    by (simp add: py_slice_nonneg)
  have i: "items (paginate cases lmt ofs) = py_slice cases ofs (ofs + lmt)"
    by (simp add: paginate_def Let_def)
  have t: "total (paginate cases lmt ofs) = int (length cases)"
          "total (paginate cases lmt' ofs') = int (length cases)"
    by (simp_all add: paginate_def Let_def)
  have e: "int (length cases) \<le> ofs \<longrightarrow> take (nat lmt) (drop (nat ofs) cases) = []"
    using a by auto
  have l: "ofs < int (length cases) \<longrightarrow>
        int (length (take (nat lmt) (drop (nat ofs) cases))) = min lmt (int (length cases) - ofs)"
    using a by auto
  from i s t e l show "items (paginate cases lmt ofs) = py_slice cases ofs (ofs + lmt) \<and>
     items (paginate cases lmt ofs) = take (nat lmt) (drop (nat ofs) cases) \<and>
     (int (length cases) \<le> ofs \<longrightarrow> items (paginate cases lmt ofs) = []) \<and>
     (ofs < int (length cases) \<longrightarrow>
        int (length (items (paginate cases lmt ofs))) = min lmt (int (length cases) - ofs)) \<and>
     total (paginate cases lmt ofs) = int (length cases) \<and>
     total (paginate cases lmt' ofs') = int (length cases)"
    by simp
qed

text \<open>Five records, limit 10, offset 3: the last two records, and a total of 5.\<close>

theorem paginate_slice_witness:
  "(1::int) \<le> 10 \<and> (0::int) \<le> 3 \<and>
   items (paginate [JInt 0, JInt 1, JInt 2, JInt 3, JInt 4] 10 3) = [JInt 3, JInt 4] \<and>
   total (paginate [JInt 0, JInt 1, JInt 2, JInt 3, JInt 4] 10 3) = 5"
proof -
  have h: "(1::int) \<le> 10 \<and> (0::int) \<le> 3"
    by simp
  have "items (paginate [JInt 0, JInt 1, JInt 2, JInt 3, JInt 4] 10 3)
          = take (nat 10) (drop (nat 3) [JInt 0, JInt 1, JInt 2, JInt 3, JInt 4])
        \<and> total (paginate [JInt 0, JInt 1, JInt 2, JInt 3, JInt 4] 10 3)
          = int (length [JInt 0, JInt 1, JInt 2, JInt 3, JInt 4])"
    using paginate_slice [of 10 3 "[JInt 0, JInt 1, JInt 2, JInt 3, JInt 4]" 10 3] h
    by blast
  then show ?thesis
    by (simp add: numeral_eq_Suc)
qed

section \<open>Properties of the placeholders\<close>

text \<open>
  Claim C9. Whatever their arguments, the lookup by accident number and the lookup by
  internal key raise \<^verbatim>\<open>NotImplementedError\<close> when consumed, yield no chunk and issue no
  request.
\<close>

theorem placeholders_not_supported:
  "raised (stream_ntsb_zip_by_ntsb_number ntsb_num mode) = Some NotImplementedError \<and>
   yielded (stream_ntsb_zip_by_ntsb_number ntsb_num mode) = [] \<and>
   requests (stream_ntsb_zip_by_ntsb_number ntsb_num mode) = 0 \<and>
   raised (stream_ntsb_zip_by_mkey mkey mode') = Some NotImplementedError \<and>
   yielded (stream_ntsb_zip_by_mkey mkey mode') = [] \<and>
   requests (stream_ntsb_zip_by_mkey mkey mode') = 0"
  by (simp add: stream_ntsb_zip_by_ntsb_number_def stream_ntsb_zip_by_mkey_def raise_def)

section \<open>Properties of the streaming client\<close>

text \<open>One round of the loop: it is the last one, or it sleeps and goes round again.\<close>

lemma stream_loop_last:
  "\<not> (retried (up (Suc n)) \<and> Suc n < MAX_RETRIES) \<Longrightarrow>
   stream_loop up n st =
     st\<lparr>requests := Suc (requests st), yielded := yielded st @ chunks_of (up (Suc n)),
        raised := (case failure_of (up (Suc n)) of None \<Rightarrow> raised st | Some e \<Rightarrow> Some e)\<rparr>"
  by (subst stream_loop.simps)
     (auto simp: Let_def yield_all_def raise_def split: attempt.splits)

lemma stream_loop_retry:
  "retried (up (Suc n)) \<Longrightarrow> Suc n < MAX_RETRIES \<Longrightarrow>
   stream_loop up n st =
     stream_loop up (Suc n)
       (st\<lparr>requests := Suc (requests st), yielded := yielded st @ chunks_of (up (Suc n)),
           sleeps := sleeps st @ [RETRY_BACKOFF_SECONDS * of_nat (Suc n)]\<rparr>)"
  by (subst stream_loop.simps)
     (auto simp: Let_def yield_all_def sleep_def split: attempt.splits)

text \<open>
  What the loop leaves behind, for any upstream: the requests it issued, the chunks it
  yielded (those of every request, in order), the exception of the last request, the
  requests that were retried, where it stopped, and the sleeps between requests.
\<close>

lemma stream_loop_trace:
  "requests st = n \<Longrightarrow> raised st = None \<Longrightarrow>
   n < requests (stream_loop up n st) \<and>
   requests (stream_loop up n st) \<le> max MAX_RETRIES (Suc n) \<and>
   yielded (stream_loop up n st)
     = yielded st @ concat (map (\<lambda>k. chunks_of (up k)) [Suc n ..< Suc (requests (stream_loop up n st))]) \<and>
   raised (stream_loop up n st) = failure_of (up (requests (stream_loop up n st))) \<and>
   (\<forall>k. n < k \<and> k < requests (stream_loop up n st) \<longrightarrow> retried (up k)) \<and>
   \<not> (retried (up (requests (stream_loop up n st))) \<and> requests (stream_loop up n st) < MAX_RETRIES) \<and>
   sleeps (stream_loop up n st)
     = sleeps st @ map (\<lambda>k. RETRY_BACKOFF_SECONDS * of_nat k) [Suc n ..< requests (stream_loop up n st)]"
proof (induction "MAX_RETRIES - n" arbitrary: n st)
  case 0
  then have "\<not> (retried (up (Suc n)) \<and> Suc n < MAX_RETRIES)" by simp
  with stream_loop_last [of up n st] 0 show ?case
    by (auto split: option.splits)
next
  case (Suc d)
  show ?case
  proof (cases "retried (up (Suc n)) \<and> Suc n < MAX_RETRIES")
    case False
    with stream_loop_last [of up n st] Suc.prems show ?thesis
      by (auto split: option.splits)
  next
    case True
    let ?st = "st\<lparr>requests := Suc (requests st), yielded := yielded st @ chunks_of (up (Suc n)),
           sleeps := sleeps st @ [RETRY_BACKOFF_SECONDS * of_nat (Suc n)]\<rparr>"
    define r where "r = stream_loop up (Suc n) ?st"
    have eq: "stream_loop up n st = r"
      using True by (simp add: stream_loop_retry r_def)
    have d: "d = MAX_RETRIES - Suc n" using Suc.hyps(2) by simp
    have ih: "Suc n < requests r \<and>
      requests r \<le> max MAX_RETRIES (Suc (Suc n)) \<and>
      yielded r
        = yielded ?st @ concat (map (\<lambda>k. chunks_of (up k)) [Suc (Suc n) ..< Suc (requests r)]) \<and>
      raised r = failure_of (up (requests r)) \<and>
      (\<forall>k. Suc n < k \<and> k < requests r \<longrightarrow> retried (up k)) \<and>
      \<not> (retried (up (requests r)) \<and> requests r < MAX_RETRIES) \<and>
      sleeps r
        = sleeps ?st @ map (\<lambda>k. RETRY_BACKOFF_SECONDS * of_nat k) [Suc (Suc n) ..< requests r]"
      unfolding r_def using Suc.hyps(1) [OF d, of ?st] Suc.prems by simp
    have i1: "Suc n < requests r" using ih by simp
    have i2: "requests r \<le> max MAX_RETRIES (Suc (Suc n))" using ih by simp
    have i3: "yielded r = (yielded st @ chunks_of (up (Suc n)))
                @ concat (map (\<lambda>k. chunks_of (up k)) [Suc (Suc n) ..< Suc (requests r)])"
      using ih by simp
    have i4: "raised r = failure_of (up (requests r))" using ih by simp
    have i5: "\<forall>k. Suc n < k \<and> k < requests r \<longrightarrow> retried (up k)"
      using ih by simp
    have i6: "\<not> (retried (up (requests r)) \<and> requests r < MAX_RETRIES)"
      using ih by simp
    have i7: "sleeps r = (sleeps st @ [RETRY_BACKOFF_SECONDS * of_nat (Suc n)])
                @ map (\<lambda>k. RETRY_BACKOFF_SECONDS * of_nat k) [Suc (Suc n) ..< requests r]"
      using ih by simp
    have u: "[Suc n ..< Suc (requests r)] = Suc n # [Suc (Suc n) ..< Suc (requests r)]"
      using i1 by (simp add: upt_conv_Cons)
    have u': "[Suc n ..< requests r] = Suc n # [Suc (Suc n) ..< requests r]"
      using i1 by (simp add: upt_conv_Cons)
    have c1: "n < requests r" using i1 by simp
    have c2: "requests r \<le> max MAX_RETRIES (Suc n)"
      using i2 True by (auto simp: max_def split: if_splits)
    have c3: "yielded r = yielded st @ concat (map (\<lambda>k. chunks_of (up k)) [Suc n ..< Suc (requests r)])"
      by (simp only: i3 u list.map concat.simps append_assoc)
    have c7: "sleeps r = sleeps st @ map (\<lambda>k. RETRY_BACKOFF_SECONDS * of_nat k) [Suc n ..< requests r]"
      by (simp only: i7 u' list.map append_assoc append.simps)
    have c5: "\<forall>k. n < k \<and> k < requests r \<longrightarrow> retried (up k)"
    proof (intro allI impI)
      fix k assume "n < k \<and> k < requests r"
      then have "k = Suc n \<or> (Suc n < k \<and> k < requests r)" by auto
      then show "retried (up k)" using True i5 by auto
    qed
    from c1 c2 c3 i4 c5 i6 c7 show ?thesis
      unfolding eq by simp
  qed
qed

lemma stream_file_export_trace:
  "0 < requests (stream_file_export upstream payload) \<and>
   requests (stream_file_export upstream payload) \<le> MAX_RETRIES \<and>
   yielded (stream_file_export upstream payload)
     = concat (map (\<lambda>k. chunks_of (upstream payload k))
         [1 ..< Suc (requests (stream_file_export upstream payload))]) \<and>
   raised (stream_file_export upstream payload)
     = failure_of (upstream payload (requests (stream_file_export upstream payload))) \<and>
   (\<forall>k. 0 < k \<and> k < requests (stream_file_export upstream payload)
      \<longrightarrow> retried (upstream payload k)) \<and>
   \<not> (retried (upstream payload (requests (stream_file_export upstream payload)))
      \<and> requests (stream_file_export upstream payload) < MAX_RETRIES) \<and>
   sleeps (stream_file_export upstream payload)
     = map (\<lambda>k. RETRY_BACKOFF_SECONDS * of_nat k)
         [1 ..< requests (stream_file_export upstream payload)]"
  using stream_loop_trace [of "\<lparr>yielded = [], requests = 0, sleeps = [], raised = None\<rparr>" 0
          "upstream payload"]
  by (simp add: stream_file_export_def MAX_RETRIES_def)

lemma stops_at:
  assumes "0 < k" "k \<le> MAX_RETRIES"
    and "\<forall>j. 0 < j \<and> j < k \<longrightarrow> retried (upstream payload j)"
    and "\<not> (retried (upstream payload k) \<and> k < MAX_RETRIES)"
  shows "requests (stream_file_export upstream payload) = k"
proof -
  let ?m = "requests (stream_file_export upstream payload)"
  note t = stream_file_export_trace [of upstream payload]
  have "\<not> ?m < k"
  proof
    assume l: "?m < k"
    with t assms(3) have "retried (upstream payload ?m)" by blast
    moreover from l assms(2) have "?m < MAX_RETRIES" by simp
    ultimately show False using t by blast
  qed
  moreover have "\<not> k < ?m"
  proof
    assume l: "k < ?m"
    with t assms(1) have "retried (upstream payload k)" by blast
    moreover from l t have "k < MAX_RETRIES" by simp
    ultimately show False using assms(4) by blast
  qed
  ultimately show ?thesis by simp
qed

lemma transient_retried: "transient a \<Longrightarrow> retried a"
  by (cases a) simp_all

lemma three_requests:
  assumes "retried (upstream payload 1)" "retried (upstream payload 2)"
  shows "requests (stream_file_export upstream payload) = 3"
proof -
  have "\<forall>j. 0 < j \<and> j < 3 \<longrightarrow> retried (upstream payload j)"
  proof (intro allI impI)
    fix j :: nat assume "0 < j \<and> j < 3"
    then have "j = 1 \<or> j = 2" by auto
    with assms show "retried (upstream payload j)" by auto
  qed
  then show ?thesis
    using stops_at [of 3 upstream payload] by (simp add: MAX_RETRIES_def)
qed

lemma backoff_two: "map (\<lambda>k. RETRY_BACKOFF_SECONDS * of_nat k) [1 ..< 3] = [1, 2]"
  by (simp add: RETRY_BACKOFF_SECONDS_def upt_rec numeral_eq_Suc)

lemma chunks_three:
  "concat (map f [1 ..< Suc 3]) = f 1 @ f 2 @ f 3"
  by (simp add: upt_rec numeral_eq_Suc)

text \<open>
  Claim C3. With at most 3 requests and a back-off of \<open>attempt \<times> 1\<close> second: when the first
  two requests end in a transient transport failure and the third completes, the
  generator ends normally after exactly 3 requests, having slept 1 and 2 seconds; when
  the first two requests are retried and the third fails too, the third request's error
  is raised and there is no fourth request; an error status outside 500..599 is raised
  by the request that received it, with no request after it.
\<close>

theorem retry_policy:
  "(transient (upstream payload 1) \<and> transient (upstream payload 2) \<and>
      upstream payload 3 = Completes cs \<longrightarrow>
        raised (stream_file_export upstream payload) = None \<and>
        requests (stream_file_export upstream payload) = 3 \<and>
        sleeps (stream_file_export upstream payload) = [1, 2] \<and>
        yielded (stream_file_export upstream payload)
          = chunks_of (upstream payload 1) @ chunks_of (upstream payload 2) @ cs) \<and>
   (retried (upstream payload 1) \<and> retried (upstream payload 2) \<and>
      failure_of (upstream payload 3) = Some e \<longrightarrow>
        raised (stream_file_export upstream payload) = Some e \<and>
        requests (stream_file_export upstream payload) = 3 \<and>
        sleeps (stream_file_export upstream payload) = [1, 2]) \<and>
   (0 < k \<and> k \<le> MAX_RETRIES \<and> (\<forall>j. 0 < j \<and> j < k \<longrightarrow> retried (upstream payload j)) \<and>
      upstream payload k = StatusFails status \<and> \<not> (500 \<le> status \<and> status < 600) \<longrightarrow>
        raised (stream_file_export upstream payload) = Some (HTTPStatusError status) \<and>
        requests (stream_file_export upstream payload) = k)"
proof (intro conjI impI)
  note t = stream_file_export_trace [of upstream payload]
  {
    assume a: "transient (upstream payload 1) \<and> transient (upstream payload 2) \<and>
      upstream payload 3 = Completes cs"
    then have r: "requests (stream_file_export upstream payload) = 3"
      using three_requests [of upstream payload] by (simp add: transient_retried)
    from t r a show "raised (stream_file_export upstream payload) = None" by simp
    from r show "requests (stream_file_export upstream payload) = 3" .
    from t r show "sleeps (stream_file_export upstream payload) = [1, 2]"
      by (simp only: backoff_two)
    from t r a show "yielded (stream_file_export upstream payload)
          = chunks_of (upstream payload 1) @ chunks_of (upstream payload 2) @ cs"
      by (simp only: chunks_three chunks_of.simps)
  }
  {
    assume a: "retried (upstream payload 1) \<and> retried (upstream payload 2) \<and>
      failure_of (upstream payload 3) = Some e"
    then have r: "requests (stream_file_export upstream payload) = 3"
      using three_requests [of upstream payload] by simp
    from t r a show "raised (stream_file_export upstream payload) = Some e" by simp
    from r show "requests (stream_file_export upstream payload) = 3" .
    from t r show "sleeps (stream_file_export upstream payload) = [1, 2]"
      by (simp only: backoff_two)
  }
  {
    assume a: "0 < k \<and> k \<le> MAX_RETRIES \<and> (\<forall>j. 0 < j \<and> j < k \<longrightarrow> retried (upstream payload j)) \<and>
      upstream payload k = StatusFails status \<and> \<not> (500 \<le> status \<and> status < 600)"
    then have "\<not> (retried (upstream payload k) \<and> k < MAX_RETRIES)" by auto
    with a have r: "requests (stream_file_export upstream payload) = k"
      using stops_at [of k upstream payload] by blast
    from t r a show "raised (stream_file_export upstream payload) = Some (HTTPStatusError status)"
      by simp
    from r show "requests (stream_file_export upstream payload) = k" .
  }
qed

text \<open>
  The three cases on concrete upstreams: two failures then a body, 503 three times, and a
  404 on the first request.
\<close>

theorem retry_policy_witness:
  "(transient (fails_twice () 1) \<and> transient (fails_twice () 2) \<and>
      fails_twice () 3 = Completes [''PK''] \<and>
      raised (stream_file_export fails_twice ()) = None \<and>
      requests (stream_file_export fails_twice ()) = 3 \<and>
      sleeps (stream_file_export fails_twice ()) = [1, 2] \<and>
      yielded (stream_file_export fails_twice ()) = [''PK'']) \<and>
   (retried (always_unavailable () 1) \<and> retried (always_unavailable () 2) \<and>
      failure_of (always_unavailable () 3) = Some (HTTPStatusError 503) \<and>
      raised (stream_file_export always_unavailable ()) = Some (HTTPStatusError 503) \<and>
      requests (stream_file_export always_unavailable ()) = 3) \<and>
   ((0::nat) < 1 \<and> 1 \<le> MAX_RETRIES \<and> not_found () 1 = StatusFails 404 \<and>
      \<not> ((500::nat) \<le> 404 \<and> (404::nat) < 600) \<and>
      raised (stream_file_export not_found ()) = Some (HTTPStatusError 404) \<and>
      requests (stream_file_export not_found ()) = 1 \<and>
      sleeps (stream_file_export not_found ()) = [])"
proof -
  have h1: "transient (fails_twice () 1) \<and> transient (fails_twice () 2) \<and>
      fails_twice () 3 = Completes [''PK'']"
    by (simp add: fails_twice_def)
  have h2: "retried (always_unavailable () 1) \<and> retried (always_unavailable () 2) \<and>
      failure_of (always_unavailable () 3) = Some (HTTPStatusError 503)"
    by (simp add: always_unavailable_def)
  have h3: "(0::nat) < 1 \<and> 1 \<le> MAX_RETRIES \<and>
      (\<forall>j. 0 < j \<and> j < 1 \<longrightarrow> retried (not_found () j)) \<and>
      not_found () 1 = StatusFails 404 \<and> \<not> ((500::nat) \<le> 404 \<and> (404::nat) < 600)"
    by (auto simp: not_found_def MAX_RETRIES_def)
  have c1: "raised (stream_file_export fails_twice ()) = None \<and>
      requests (stream_file_export fails_twice ()) = 3 \<and>
      sleeps (stream_file_export fails_twice ()) = [1, 2] \<and>
      yielded (stream_file_export fails_twice ())
        = chunks_of (fails_twice () 1) @ chunks_of (fails_twice () 2) @ [''PK'']"
    using retry_policy [of fails_twice "()" "[''PK'']"] h1 by blast
  have c2: "raised (stream_file_export always_unavailable ()) = Some (HTTPStatusError 503) \<and>
      requests (stream_file_export always_unavailable ()) = 3"
    using retry_policy [of always_unavailable "()" _ "HTTPStatusError 503"] h2 by blast
  have c3: "raised (stream_file_export not_found ()) = Some (HTTPStatusError 404) \<and>
      requests (stream_file_export not_found ()) = 1"
    using retry_policy [of not_found "()" _ _ 1 404] h3 by blast
  have s3: "sleeps (stream_file_export not_found ()) = []"
    using stream_file_export_trace [of not_found "()"] c3 by simp
  have y1: "chunks_of (fails_twice () 1) @ chunks_of (fails_twice () 2) @ [''PK''] = [''PK'']"
    by (simp add: fails_twice_def)
  from h1 h2 h3 c1 c2 c3 s3 y1 show ?thesis
    by simp
qed




section \<open>Properties of the statistics\<close>









section \<open>Properties of filtering\<close>









section \<open>Properties of sorting\<close>

lemma get_nested_value_sort_total: "\<exists>v. get_nested_value_sort c field = Inr v"
  using walk_filter_total [of c "split_on CHR ''.'' field"]
  by (simp add: get_nested_value_sort_def walk_filter_sort)

lemma sort_key_resolved: "sort_key field c = Inr (fst (decorate field c))"
  using get_nested_value_sort_total [of c field]
  by (auto simp: sort_key_def resolved_def decorate_def)

lemma eval_keys_decorate: "eval_keys (sort_key field) cases = Inr (map (decorate field) cases)"
  by (induction cases) (simp_all add: sort_key_resolved decorate_def)








text \<open>
  Where the absent records end up. An insertion keeps the absent keys behind the present
  ones, whatever \<^verbatim>\<open><\<close> says about two present values, because the first component of the
  key decides between an absent and a present key.
\<close>

lemma insert_key_mset:
  "insert_key lt x ys = Inr zs \<Longrightarrow> mset zs = add_mset x (mset ys)"
proof (induction ys arbitrary: zs)
  case Nil
  then show ?case by auto
next
  case (Cons y ys)
  then show ?case
    by (auto split: sum.splits if_splits)
qed

lemma sort_loop_mset:
  "sort_loop lt acc xs = Inr zs \<Longrightarrow> mset zs = mset acc + mset xs"
proof (induction xs arbitrary: acc)
  case Nil
  then show ?case by simp
next
  case (Cons x xs)
  then show ?case
    by (auto split: sum.splits dest!: insert_key_mset)
qed

lemma key_lt_present_first:
  "key_formed x \<Longrightarrow> key_formed y \<Longrightarrow> key_lt (fst x) (fst y) = Inr b \<Longrightarrow>
   (b \<longrightarrow> \<not> fst (fst x)) \<and> (\<not> b \<and> fst (fst y) \<longrightarrow> fst (fst x))"
  by (cases "fst (fst x)"; cases "fst (fst y)")
     (auto simp: key_lt_def key_formed_def split: if_splits)

lemma insert_key_absent_last:
  assumes "insert_key key_lt x ys = Inr zs" "keys_absent_last ys"
    "key_formed x" "\<forall>y \<in> set ys. key_formed y"
  shows "keys_absent_last zs"
  using assms
proof (induction ys arbitrary: zs)
  case Nil
  then show ?case by auto
next
  case (Cons y ys)
  from Cons.prems(1) obtain b where b: "key_lt (fst x) (fst y) = Inr b"
    by (auto split: sum.splits)
  from Cons.prems have fy: "key_formed y" by simp
  note p = key_lt_present_first [OF Cons.prems(3) fy b]
  show ?case
  proof (cases b)
    case True
    with Cons.prems(1) b have "zs = x # y # ys" by simp
    with p True Cons.prems(2) show ?thesis by simp
  next
    case False
    with Cons.prems(1) b obtain zs' where zs': "insert_key key_lt x ys = Inr zs'" "zs = y # zs'"
      by (auto split: sum.splits)
    from Cons.prems have "keys_absent_last ys" "\<forall>y \<in> set ys. key_formed y" by simp_all
    with Cons.IH [OF zs'(1)] Cons.prems(3) have k: "keys_absent_last zs'" by simp
    have s: "set zs' = insert x (set ys)"
      using insert_key_mset [OF zs'(1)] by (metis set_mset_add_mset_insert set_mset_mset)
    show ?thesis
    proof (cases "fst (fst y)")
      case True
      with p False have "fst (fst x)" by simp
      moreover from True Cons.prems(2) have "\<forall>j \<in> set ys. fst (fst j)" by simp
      ultimately show ?thesis using k s zs'(2) by simp
    next
      case False
      with k zs'(2) show ?thesis by simp
    qed
  qed
qed

lemma sort_loop_absent_last:
  "sort_loop key_lt acc xs = Inr zs \<Longrightarrow> keys_absent_last acc \<Longrightarrow>
   \<forall>k \<in> set acc \<union> set xs. key_formed k \<Longrightarrow> keys_absent_last zs"
proof (induction xs arbitrary: acc)
  case Nil
  then show ?case by simp
next
  case (Cons x xs)
  from Cons.prems(1) obtain acc' where
    acc': "insert_key key_lt x acc = Inr acc'" "sort_loop key_lt acc' xs = Inr zs"
    by (auto split: sum.splits)
  from Cons.prems have fx: "key_formed x" "\<forall>y \<in> set acc. key_formed y" by simp_all
  have k: "keys_absent_last acc'"
    using insert_key_absent_last [OF acc'(1) Cons.prems(2) fx] .
  have "set acc' = insert x (set acc)"
    using insert_key_mset [OF acc'(1)] by (metis set_mset_add_mset_insert set_mset_mset)
  with Cons.prems(3) have "\<forall>k \<in> set acc' \<union> set xs. key_formed k" by simp
  with Cons.IH [OF acc'(2) k] show ?case by simp
qed

lemma decorate_formed: "key_formed (decorate field c)"
  by (simp add: key_formed_def decorate_def)

lemma keys_absent_last_records:
  "\<forall>k \<in> set ks. k = decorate field (snd k) \<Longrightarrow>
   keys_absent_last ks = absent_last field (map snd ks)"
proof (induction ks)
  case Nil
  show ?case by simp
next
  case (Cons k ks)
  then have k: "fst (fst k) = (resolved field (snd k) = JNull)"
    by (metis decorate_def fst_conv list.set_intros(1))
  have "\<forall>j \<in> set ks. fst (fst j) = (resolved field (snd j) = JNull)"
    using Cons.prems by (metis decorate_def fst_conv list.set_intros(2))
  with Cons k show ?case by simp
qed

lemma sorted_keys:
  assumes "field \<noteq> []" "sort_cases cases field order = Inr ys"
  shows "\<exists>s. sort_loop key_lt []
            (if map lower_char order = ''desc'' then rev (map (decorate field) cases)
             else map (decorate field) cases) = Inr s \<and>
          ys = map snd (if map lower_char order = ''desc'' then rev s else s) \<and>
          keys_absent_last s \<and> (\<forall>k \<in> set s. k = decorate field (snd k))"
proof -
  let ?ks = "if map lower_char order = ''desc'' then rev (map (decorate field) cases)
             else map (decorate field) cases"
  from assms obtain s where s: "sort_loop key_lt [] ?ks = Inr s"
    and ys: "ys = map snd (if map lower_char order = ''desc'' then rev s else s)"
    by (auto simp: sort_cases_def Let_def py_sorted_def eval_keys_decorate split: sum.splits)
  have f: "\<forall>k \<in> set [] \<union> set ?ks. key_formed k"
    by (auto simp: decorate_formed)
  have a: "keys_absent_last s"
    using sort_loop_absent_last [OF s _ f] by simp
  have "set s = set ?ks"
    using sort_loop_mset [OF s] by (metis add.left_neutral mset.simps(1) set_mset_mset)
  then have "\<forall>k \<in> set s. k = decorate field (snd k)"
    by (auto simp: decorate_def)
  with s ys a show ?thesis by blast
qed

text \<open>
  In ascending order the absent records are last. In descending order the list is
  reversed after the sort, which puts them first: the reverse of the result has them
  last.
\<close>

lemma ascending_puts_absent_last:
  assumes "field \<noteq> []" "map lower_char order \<noteq> ''desc''"
    "sort_cases cases field order = Inr ys"
  shows "absent_last field ys"
proof -
  from sorted_keys [OF assms(1,3)] assms(2) obtain s where
    "ys = map snd s" "keys_absent_last s" "\<forall>k \<in> set s. k = decorate field (snd k)"
    by auto
  then show ?thesis
    using keys_absent_last_records [of s field] by simp
qed

lemma descending_puts_absent_first:
  assumes "field \<noteq> []" "map lower_char order = ''desc''"
    "sort_cases cases field order = Inr ys"
  shows "absent_last field (rev ys)"
proof -
  from sorted_keys [OF assms(1,3)] assms(2) obtain s where
    "ys = map snd (rev s)" "keys_absent_last s" "\<forall>k \<in> set s. k = decorate field (snd k)"
    by auto
  then show ?thesis
    using keys_absent_last_records [of s field] by (simp add: rev_map)
qed

text \<open>
  Claim C1 fails on the source for the descending order. With \<^verbatim>\<open>reverse=True\<close> the whole
  key \<^verbatim>\<open>(value is None, value)\<close> is sorted descending, so the records whose value is absent
  come first: of a record with the value 1 followed by a record without the field,
  \<^verbatim>\<open>sort_cases\<close> with order \<^verbatim>\<open>desc\<close> returns the record without the field before the other
  one, where the comment in the source promises it at the end.
\<close>

theorem sort_cases_desc_absent_first:
  "get_nested_value_sort (JDict [(''n'', JInt 1)]) ''n'' = Inr (JInt 1) \<and>
   get_nested_value_sort (JDict []) ''n'' = Inr JNull \<and>
   sort_cases present_then_absent ''n'' ''desc'' = Inr [JDict [], JDict [(''n'', JInt 1)]] \<and>
   sort_cases present_then_absent ''n'' ''asc'' = Inr [JDict [(''n'', JInt 1)], JDict []]"
  by code_simp

end
